theory Spec2Isabelle
  imports Main "HOL-Library.Sublist" "HOL-Library.FSet"
begin

section \<open>Python strings\<close>

text \<open>
  A Python \<open>str\<close> is modelled as a \<open>string\<close>; a \<open>char\<close> stands for a code point
  below 256, so the model covers the texts and URLs written in Latin-1. The string
  methods used by \<open>rag_builder.py\<close> are modelled on that range.
\<close>

text \<open>\<open>str.lower()\<close>: \<open>A\<close>..\<open>Z\<close> and the Latin-1 capitals (192..222 without the
  multiplication sign 215) move up by 32, every other code point stays.\<close>

definition lower_char :: "char \<Rightarrow> char" where
  "lower_char c =
     (let n = (of_char c :: nat)
      in if (65 \<le> n \<and> n \<le> 90) \<or> (192 \<le> n \<and> n \<le> 222 \<and> n \<noteq> 215)
         then char_of (n + 32) else c)"

definition lower :: "string \<Rightarrow> string" where
  "lower s = map lower_char s"

text \<open>\<open>sub in s\<close> on strings: \<open>sub\<close> occurs in \<open>s\<close> as a contiguous substring.\<close>

fun contains :: "string \<Rightarrow> string \<Rightarrow> bool" where
  "contains [] sub = (sub = [])"
| "contains (c # cs) sub = (prefix sub (c # cs) \<or> contains cs sub)"

section \<open>The URL filter\<close>

definition BASE_URL_WIKI :: string where
  "BASE_URL_WIKI = ''https://wiki.freecad.org/Power_users_hub''"

definition BASE_URL_GITHUB :: string where
  "BASE_URL_GITHUB = ''https://github.com/shaise/FreeCAD_FastenersWB''"

definition DOMAIN_WHITELIST :: "string list" where
  "DOMAIN_WHITELIST = [''https://wiki.freecad.org'', ''https://github.com/shaise'']"

definition LANG_IDENTIFIERS :: "string list" where
  "LANG_IDENTIFIERS =
     [''/id'', ''/de'', ''/tr'', ''/es'', ''/fr'', ''/hr'', ''/it'', ''/pl'',
      ''/pt'', ''/pt-br'', ''/ro'', ''/fi'', ''/sv'', ''/cs'', ''/ru'', ''/zh-cn'',
      ''/zh-tw'', ''/ja'', ''/ko'']"

text \<open>
  \<open>is_excluded_url\<close>: the language markers are looked for only when the lowered URL
  contains \<open>wiki.freecad.org\<close>; the asset and edit-action markers are looked for in
  every URL.
\<close>

definition is_excluded_url :: "string \<Rightarrow> bool" where
  "is_excluded_url url =
     (let url_lower = lower url
      in if contains url_lower ''wiki.freecad.org''
            \<and> list_ex (\<lambda>lang. contains url_lower lang) LANG_IDENTIFIERS
         then True
         else (contains url_lower ''.jpg'' \<or> contains url_lower ''.png''
               \<or> contains url_lower ''edit&section''))"

text \<open>\<open>any(full.startswith(domain) for domain in DOMAIN_WHITELIST)\<close>\<close>

definition whitelisted :: "string \<Rightarrow> bool" where
  "whitelisted full = list_ex (\<lambda>domain. prefix domain full) DOMAIN_WHITELIST"

section \<open>Text extraction\<close>

text \<open>Code points that \<open>str.splitlines()\<close> takes as line boundaries: LF, VT, FF, CR,
  FS, GS, RS and NEL.\<close>

definition is_linebreak :: "char \<Rightarrow> bool" where
  "is_linebreak c = ((of_char c :: nat) \<in> {10, 11, 12, 13, 28, 29, 30, 133})"

text \<open>Code points that \<open>str.strip()\<close> removes (\<open>str.isspace\<close>): TAB..CR, FS..US, space,
  NEL and the no-break space.\<close>

definition is_space :: "char \<Rightarrow> bool" where
  "is_space c = ((of_char c :: nat) \<in> {9, 10, 11, 12, 13, 28, 29, 30, 31, 32, 133, 160})"

text \<open>The text after the line boundary at the head of \<open>rest\<close>; CR followed by LF is one
  boundary.\<close>

fun after_break :: "string \<Rightarrow> string" where
  "after_break [] = []"
| "after_break [c] = []"
| "after_break (c # d # r) = (if c = CHR 0x0D \<and> d = CHR 0x0A then r else d # r)"

lemma length_after_break: "length (after_break (dropWhile P s)) < length s" if "s \<noteq> []"
proof -
  have b: "length (after_break r) < length r" if "r \<noteq> []" for r
    using that by (induction r rule: after_break.induct) auto
  show ?thesis
  proof (cases "dropWhile P s = []")
    case True
    with that show ?thesis by (simp del: dropWhile_eq_Nil_conv)
  next
    case False
    from b [OF False] length_dropWhile_le [of P s] show ?thesis by linarith
  qed
qed

text \<open>\<open>str.splitlines()\<close>: scan to the next line boundary, emit the line without its
  terminator, go on behind the terminator; no line is emitted for the empty rest.\<close>

function splitlines :: "string \<Rightarrow> string list" where
  "splitlines s =
     (if s = [] then []
      else takeWhile (\<lambda>c. \<not> is_linebreak c) s
           # splitlines (after_break (dropWhile (\<lambda>c. \<not> is_linebreak c) s)))"
  by pat_completeness auto
termination
  by (relation "measure length") (auto simp: length_after_break)

declare splitlines.simps [simp del]

text \<open>\<open>str.strip()\<close> without argument.\<close>

definition strip :: "string \<Rightarrow> string" where
  "strip s = rev (dropWhile is_space (rev (dropWhile is_space s)))"

text \<open>\<open>sep.join(xs)\<close>\<close>

fun join :: "string \<Rightarrow> string list \<Rightarrow> string" where
  "join sep [] = []"
| "join sep [x] = x"
| "join sep (x # y # ys) = x @ sep @ join sep (y # ys)"

text \<open>\<open>[line.strip() for line in text.splitlines() if line.strip()]\<close>\<close>

definition clean_lines :: "string \<Rightarrow> string list" where
  "clean_lines text = map strip (filter (\<lambda>line. strip line \<noteq> []) (splitlines text))"

definition clean_text :: "string \<Rightarrow> string" where
  "clean_text text = join [CHR 0x0A] (clean_lines text)"

section \<open>The crawl frontier\<close>

text \<open>
  What the crawler takes from the outside world:
  \<^item> \<open>get n url\<close> is \<open>requests.get(url)\<close>, \<open>raise_for_status()\<close> and the
    \<open>BeautifulSoup\<close> parse, for the request number \<open>n\<close> of this crawl (so the same URL
    may answer differently at different times): \<open>Inl e\<close> when any of the three raises
    exception \<open>e\<close>, else the parsed document with the six non-content tags removed;
  \<^item> of the document, \<open>get_text\<close> is \<open>soup.get_text(separator="\n")\<close> and \<open>hrefs\<close> the
    \<open>href\<close> of each \<open>a\<close> found by \<open>soup.find_all("a", href=True)\<close>, in document order;
  \<^item> \<open>uj url href\<close> is \<open>urljoin(url, href)\<close>, \<open>Inl e\<close> when it raises.
  The removal of the tags, \<open>get_text\<close> and \<open>find_all\<close> on a parsed document are taken
  not to raise.
\<close>

record soup =
  get_text :: string
  hrefs :: "string list"

record page =
  page_url :: string
  page_text :: string

text \<open>The lines printed: \<open>Fetching: {url}\<close>, \<open>Error fetching {url}: {e}\<close>,
  \<open>Crawled {n} pages from {start_url}\<close>, \<open>No pages crawled. Exiting.\<close>,
  \<open>Split into {n} chunks\<close>, \<open>Vectorstore saved to ./vectorstore\<close>.\<close>

datatype printed =
  Fetching string
| Error_fetching string string
| Crawled nat string
| No_pages_crawled
| Split_into nat
| Vectorstore_saved

text \<open>The state of one crawl: the three local variables, the lines printed so far, and
  the log \<open>gets\<close> of the URLs passed to \<open>requests.get\<close>, each with whether the fetch
  and parse went through.\<close>

record crawl_state =
  visited :: "string fset"
  to_visit :: "string list"
  pages :: "page list"
  out :: "printed list"
  gets :: "(string \<times> bool) list"

text \<open>The loop over the links of a page: returns the queue and the exception that ended
  the loop early, if any.\<close>

fun queue_links ::
  "(string \<Rightarrow> string \<Rightarrow> string + string) \<Rightarrow> string fset \<Rightarrow> string \<Rightarrow> string list
     \<Rightarrow> string list \<Rightarrow> string list \<times> string option" where
  "queue_links uj vis url q [] = (q, None)"
| "queue_links uj vis url q (h # hs) =
     (case uj url h of
        Inl e \<Rightarrow> (q, Some e)
      | Inr full \<Rightarrow>
          queue_links uj vis url
            (if whitelisted full \<and> full |\<notin>| vis \<and> \<not> is_excluded_url full
             then q @ [full] else q) hs)"

text \<open>One pass through the body of the \<open>while\<close> loop; the loop condition gives
  \<open>to_visit s \<noteq> []\<close>, so the first case is never reached from the loop.\<close>

definition crawl_body ::
  "(nat \<Rightarrow> string \<Rightarrow> string + soup) \<Rightarrow> (string \<Rightarrow> string \<Rightarrow> string + string)
     \<Rightarrow> crawl_state \<Rightarrow> crawl_state" where
  "crawl_body get uj s =
     (case to_visit s of
        [] \<Rightarrow> s
      | url # rest \<Rightarrow>
          if url |\<in>| visited s \<or> is_excluded_url url then s\<lparr>to_visit := rest\<rparr>
          else
            (case get (length (gets s)) url of
               Inl e \<Rightarrow>
                 s\<lparr>to_visit := rest,
                   out := out s @ [Fetching url, Error_fetching url e],
                   gets := gets s @ [(url, False)]\<rparr>
             | Inr sp \<Rightarrow>
                 (case queue_links uj (finsert url (visited s)) url rest (hrefs sp) of
                    (q, err) \<Rightarrow>
                      s\<lparr>visited := finsert url (visited s),
                        to_visit := q,
                        pages := pages s
                          @ [\<lparr>page_url = url, page_text = clean_text (get_text sp)\<rparr>],
                        out := out s @ Fetching url
                          # (case err of None \<Rightarrow> [] | Some e \<Rightarrow> [Error_fetching url e]),
                        gets := gets s @ [(url, True)]\<rparr>)))"

text \<open>\<open>while to_visit and len(visited) < max_pages\<close>\<close>

definition crawl_cond :: "int \<Rightarrow> crawl_state \<Rightarrow> bool" where
  "crawl_cond max_pages s \<longleftrightarrow> to_visit s \<noteq> [] \<and> int (fcard (visited s)) < max_pages"

lemma crawl_body_decreases:
  assumes "crawl_cond max_pages s"
  shows "fcard (visited (crawl_body get uj s)) = Suc (fcard (visited s))
         \<or> (visited (crawl_body get uj s) = visited s
            \<and> length (to_visit (crawl_body get uj s)) < length (to_visit s))"
proof (cases "to_visit s")
  case Nil
  with assms show ?thesis by (simp add: crawl_cond_def)
next
  case (Cons url rest)
  then show ?thesis
    by (auto simp: crawl_body_def fcard_finsert_disjoint split: sum.splits prod.splits)
qed

function crawl_loop ::
  "(nat \<Rightarrow> string \<Rightarrow> string + soup) \<Rightarrow> (string \<Rightarrow> string \<Rightarrow> string + string)
     \<Rightarrow> int \<Rightarrow> crawl_state \<Rightarrow> crawl_state" where
  "crawl_loop get uj max_pages s =
     (if crawl_cond max_pages s then crawl_loop get uj max_pages (crawl_body get uj s)
      else s)"
  by pat_completeness auto
termination
proof (relation "measures [\<lambda>(get, uj, max_pages, s). nat (max_pages - int (fcard (visited s))),
                           \<lambda>(get, uj, max_pages, s). length (to_visit s)]")
  show "wf (measures [\<lambda>(get, uj, max_pages, s). nat (max_pages - int (fcard (visited s))),
                      \<lambda>(get, uj, max_pages, s). length (to_visit s)])"
    by simp
next
  fix get :: "nat \<Rightarrow> string \<Rightarrow> string + soup"
    and uj :: "string \<Rightarrow> string \<Rightarrow> string + string"
    and max_pages :: int and s :: crawl_state
  assume c: "crawl_cond max_pages s"
  from crawl_body_decreases [OF c, of get uj] c
  show "((get, uj, max_pages, crawl_body get uj s), (get, uj, max_pages, s))
        \<in> measures [\<lambda>(get, uj, max_pages, s). nat (max_pages - int (fcard (visited s))),
                     \<lambda>(get, uj, max_pages, s). length (to_visit s)]"
    by (auto simp: crawl_cond_def)
qed

declare crawl_loop.simps [simp del]

definition crawl_init :: "string \<Rightarrow> crawl_state" where
  "crawl_init start_url =
     \<lparr>visited = {||}, to_visit = [start_url], pages = [], out = [], gets = []\<rparr>"

text \<open>\<open>crawl_wiki\<close>: the state at the \<open>return\<close>; the value returned is its \<open>pages\<close>.\<close>

definition crawl_wiki ::
  "(nat \<Rightarrow> string \<Rightarrow> string + soup) \<Rightarrow> (string \<Rightarrow> string \<Rightarrow> string + string)
     \<Rightarrow> string \<Rightarrow> int \<Rightarrow> crawl_state" where
  "crawl_wiki get uj start_url max_pages =
     (let s = crawl_loop get uj max_pages (crawl_init start_url)
      in s\<lparr>out := out s @ [Crawled (length (pages s)) start_url]\<rparr>)"

text \<open>The states at the head of the loop during the crawl that starts in \<open>s0\<close>.\<close>

inductive crawl_reach ::
  "(nat \<Rightarrow> string \<Rightarrow> string + soup) \<Rightarrow> (string \<Rightarrow> string \<Rightarrow> string + string)
     \<Rightarrow> int \<Rightarrow> crawl_state \<Rightarrow> crawl_state \<Rightarrow> bool"
  for get uj max_pages s0 where
  start: "crawl_reach get uj max_pages s0 s0"
| iter: "crawl_reach get uj max_pages s0 s \<Longrightarrow> crawl_cond max_pages s
         \<Longrightarrow> crawl_reach get uj max_pages s0 (crawl_body get uj s)"

code_pred crawl_reach .

text \<open>The request log is in order when no URL is requested again after a request for it
  went through.\<close>

fun no_refetch :: "(string \<times> bool) list \<Rightarrow> bool" where
  "no_refetch [] = True"
| "no_refetch ((u, ok) # r) = ((ok \<longrightarrow> u \<notin> fst ` set r) \<and> no_refetch r)"

text \<open>Invariants of the loop: the page records are those of the visited URLs, one each,
  in the order of the requests that went through; a URL whose request went through is
  visited.\<close>

definition pages_inv :: "crawl_state \<Rightarrow> bool" where
  "pages_inv s \<longleftrightarrow> distinct (map page_url (pages s))
     \<and> set (map page_url (pages s)) = fset (visited s)
     \<and> map fst (filter snd (gets s)) = map page_url (pages s)"

definition gets_inv :: "crawl_state \<Rightarrow> bool" where
  "gets_inv s \<longleftrightarrow> no_refetch (gets s)
     \<and> list_all (\<lambda>(u, ok). ok \<longrightarrow> u |\<in>| visited s) (gets s)"

section \<open>The pipeline\<close>

text \<open>
  \<open>build_vectorstore\<close> calls four collaborators that are not part of the sources; the
  model takes them as parameters and records each call:
  \<^item> \<open>splitter 1000 150 texts metadatas\<close> is
    \<open>RecursiveCharacterTextSplitter(chunk_size=1000, chunk_overlap=150)
      .create_documents(texts, metadatas=metadatas)\<close>;
  \<^item> \<open>from_documents docs\<close> is the construction of the embeddings and
    \<open>FAISS.from_documents(docs, embeddings)\<close>, \<open>Inl e\<close> when it raises;
  \<^item> \<open>makedirs\<close> is \<open>os.makedirs(vectorstore_path, exist_ok=True)\<close> and \<open>save_local v\<close>
    is \<open>vectorstore.save_local(vectorstore_path)\<close>, \<open>Some e\<close> when they raise.
  The second crawl runs after the first, so its requests are numbered on from those of
  the first.
\<close>

datatype ('d, 'v) call =
  Create_documents "string list" "string list"
| From_documents "'d list"
| Makedirs
| Save_local 'v

record ('d, 'v) run =
  printed :: "printed list"
  calls :: "('d, 'v) call list"
  raised :: "string option"

definition build_vectorstore ::
  "(nat \<Rightarrow> string \<Rightarrow> string + soup) \<Rightarrow> (string \<Rightarrow> string \<Rightarrow> string + string)
     \<Rightarrow> (nat \<Rightarrow> nat \<Rightarrow> string list \<Rightarrow> string list \<Rightarrow> 'd list)
     \<Rightarrow> ('d list \<Rightarrow> string + 'v) \<Rightarrow> string option \<Rightarrow> ('v \<Rightarrow> string option)
     \<Rightarrow> ('d, 'v) run" where
  "build_vectorstore get uj splitter from_documents makedirs save_local =
     (let wiki = crawl_wiki get uj BASE_URL_WIKI 2000;
          github = crawl_wiki (\<lambda>n. get (length (gets wiki) + n)) uj BASE_URL_GITHUB 450;
          ps = pages wiki @ pages github;
          log = out wiki @ out github
      in if ps = [] then \<lparr>printed = log @ [No_pages_crawled], calls = [], raised = None\<rparr>
         else
           let texts = map page_text ps;
               metadatas = map page_url ps;
               docs = splitter 1000 150 texts metadatas;
               log' = log @ [Split_into (length docs)];
               c = [Create_documents texts metadatas, From_documents docs]
           in case from_documents docs of
                Inl e \<Rightarrow> \<lparr>printed = log', calls = c, raised = Some e\<rparr>
              | Inr v \<Rightarrow>
                  (case makedirs of
                     Some e \<Rightarrow> \<lparr>printed = log', calls = c @ [Makedirs], raised = Some e\<rparr>
                   | None \<Rightarrow>
                       (case save_local v of
                          Some e \<Rightarrow>
                            \<lparr>printed = log', calls = c @ [Makedirs, Save_local v],
                              raised = Some e\<rparr>
                        | None \<Rightarrow>
                            \<lparr>printed = log' @ [Vectorstore_saved],
                              calls = c @ [Makedirs, Save_local v], raised = None\<rparr>)))"

section \<open>The chunker of the specification\<close>

text \<open>
  Modelled from the spec: the Chunker. The sources only construct
  \<open>RecursiveCharacterTextSplitter(chunk_size=1000, chunk_overlap=150)\<close> of the
  \<open>langchain\<close> library and call its \<open>create_documents\<close>; the splitter itself is not
  among them. The specification describes it so: it walks the text of a page
  ``producing consecutive slices of length \<open>chunk_size\<close> characters, advancing the
  window by \<open>chunk_size - overlap\<close> each step, until the remaining text is shorter
  than one window, which becomes the final (possibly shorter) chunk for that page''.
  A walk that never reaches the end (the window does not advance) has no result.
\<close>

partial_function (option) chunk_text :: "nat \<Rightarrow> nat \<Rightarrow> 'a list \<Rightarrow> 'a list list option" where
  "chunk_text chunk_size overlap t =
     (if length t < chunk_size then Some [t]
      else Option.bind (chunk_text chunk_size overlap (drop (chunk_size - overlap) t))
             (\<lambda>cs. Some (take chunk_size t # cs)))"

text \<open>
  Modelled from the spec: the re-assembly of its chunking property, ``re-concatenating
  the chunks after trimming the declared overlap from each chunk after the first''.
\<close>

definition reassemble :: "nat \<Rightarrow> 'a list list \<Rightarrow> 'a list" where
  "reassemble overlap cs =
     (case cs of [] \<Rightarrow> [] | c # rest \<Rightarrow> c @ concat (map (drop overlap) rest))"

section \<open>Example sites\<close>

text \<open>A site whose root page links twice to a page that cannot be fetched; every
  \<open>href\<close> on it is absolute already.\<close>

definition broken_link_site :: "nat \<Rightarrow> string \<Rightarrow> string + soup" where
  "broken_link_site n url =
     (if url = ''https://wiki.freecad.org/Power_users_hub''
      then Inr \<lparr>get_text = ''Power users hub'',
                hrefs = [''https://wiki.freecad.org/Macros'',
                         ''https://wiki.freecad.org/Macros'']\<rparr>
      else Inl ''404 Client Error'')"

definition absolute_href :: "string \<Rightarrow> string \<Rightarrow> string + string" where
  "absolute_href url href = Inr href"

text \<open>A site that is down: every request fails.\<close>

definition site_down :: "nat \<Rightarrow> string \<Rightarrow> string + soup" where
  "site_down n url = Inl ''Connection refused''"

text \<open>Collaborators for an example run: one document per page, an index that is the
  list of its documents, a save that succeeds.\<close>

definition page_splitter :: "nat \<Rightarrow> nat \<Rightarrow> string list \<Rightarrow> string list \<Rightarrow> (string \<times> string) list" where
  "page_splitter chunk_size overlap texts metadatas = zip texts metadatas"

definition list_index :: "(string \<times> string) list \<Rightarrow> string + (string \<times> string) list" where
  "list_index docs = Inr docs"

definition save_ok :: "(string \<times> string) list \<Rightarrow> string option" where
  "save_ok v = None"

section \<open>Facts about the string operations\<close>

lemma contains_sublist: "contains s sub \<longleftrightarrow> sublist sub s"
  by (induction s) (auto simp: sublist_Cons_right)

lemma char_of_eq: "(char_of (n::nat) = c) = (n mod 256 = of_char c)"
  by (auto simp: char_of_eq_iff take_bit_eq_mod)

lemma eq_char_of: "(c = char_of (n::nat)) = (of_char c = n mod 256)"
  using char_of_eq [of n c] by auto

lemmas url_eval = is_excluded_url_def lower_def lower_char_def LANG_IDENTIFIERS_def
  whitelisted_def DOMAIN_WHITELIST_def char_of_eq eq_char_of

section \<open>Facts about the crawl loop\<close>

lemma crawl_loop_stop: "\<not> crawl_cond max_pages s \<Longrightarrow> crawl_loop get uj max_pages s = s"
  by (simp add: crawl_loop.simps)

lemma crawl_loop_iter:
  "crawl_cond max_pages s \<Longrightarrow>
     crawl_loop get uj max_pages s = crawl_loop get uj max_pages (crawl_body get uj s)"
  by (subst crawl_loop.simps) simp

lemmas crawl_eval = crawl_wiki_def crawl_init_def crawl_loop.simps crawl_cond_def
  crawl_body_def fcard_fempty fcard_finsert_if Let_def

lemma crawl_reach_trans:
  assumes "crawl_reach get uj max_pages s t" and "crawl_reach get uj max_pages s0 s"
  shows "crawl_reach get uj max_pages s0 t"
  using assms by (induction rule: crawl_reach.induct) (auto intro: crawl_reach.iter)

lemma crawl_reach_loop: "crawl_reach get uj max_pages s (crawl_loop get uj max_pages s)"
proof -
  have "crawl_reach get uj max_pages s0 s
        \<Longrightarrow> crawl_reach get uj max_pages s0 (crawl_loop get uj max_pages s)" for s0
  proof (induction get uj max_pages s rule: crawl_loop.induct)
    case (1 get uj max_pages s)
    show ?case
    proof (cases "crawl_cond max_pages s")
      case True
      with 1 show ?thesis by (simp add: crawl_loop_iter crawl_reach.iter)
    next
      case False
      with 1 show ?thesis by (simp add: crawl_loop_stop)
    qed
  qed
  then show ?thesis using crawl_reach.start by blast
qed

lemma crawl_reach_invariant:
  assumes "crawl_reach get uj max_pages s0 s" and "P s0"
    and "\<And>t. P t \<Longrightarrow> crawl_cond max_pages t \<Longrightarrow> P (crawl_body get uj t)"
  shows "P s"
  using assms by (induction rule: crawl_reach.induct) auto

lemma crawl_loop_invariant:
  assumes "P s"
    and "\<And>t. P t \<Longrightarrow> crawl_cond max_pages t \<Longrightarrow> P (crawl_body get uj t)"
  shows "P (crawl_loop get uj max_pages s)"
  using crawl_reach_loop [of get uj max_pages s] assms by (rule crawl_reach_invariant)

lemma visited_within_budget:
  assumes "crawl_reach get uj max_pages s0 s" and "int (fcard (visited s0)) \<le> max_pages"
  shows "int (fcard (visited s)) \<le> max_pages"
  using assms(1)
proof (rule crawl_reach_invariant)
  show "int (fcard (visited s0)) \<le> max_pages" by fact
next
  fix t assume "int (fcard (visited t)) \<le> max_pages" and c: "crawl_cond max_pages t"
  from crawl_body_decreases [OF c, of get uj] c
  show "int (fcard (visited (crawl_body get uj t))) \<le> max_pages"
    by (auto simp: crawl_cond_def)
qed

text \<open>Every pass makes progress, so the loop does not come back to a state it left.\<close>

lemma crawl_loop_progress:
  "crawl_cond max_pages s \<Longrightarrow>
     fcard (visited s) < fcard (visited (crawl_loop get uj max_pages s))
     \<or> (visited (crawl_loop get uj max_pages s) = visited s
        \<and> length (to_visit (crawl_loop get uj max_pages s)) < length (to_visit s))"
proof (induction get uj max_pages s rule: crawl_loop.induct)
  case (1 get uj max_pages s)
  let ?b = "crawl_body get uj s"
  note d = crawl_body_decreases [OF "1.prems", of get uj]
  show ?case
  proof (cases "crawl_cond max_pages ?b")
    case True
    from "1.IH" [OF "1.prems" True] d show ?thesis
      unfolding crawl_loop_iter [OF "1.prems"] by (elim disjE conjE) simp_all
  next
    case False
    from d show ?thesis
      unfolding crawl_loop_iter [OF "1.prems"] crawl_loop_stop [OF False]
      by (elim disjE conjE) simp_all
  qed
qed

lemma crawl_loop_fixed:
  "crawl_loop get uj max_pages s = s \<longleftrightarrow> \<not> crawl_cond max_pages s"
proof
  assume e: "crawl_loop get uj max_pages s = s"
  show "\<not> crawl_cond max_pages s"
  proof
    assume "crawl_cond max_pages s"
    from crawl_loop_progress [OF this, of get uj] show False
      unfolding e by simp
  qed
next
  assume "\<not> crawl_cond max_pages s"
  then show "crawl_loop get uj max_pages s = s" by (rule crawl_loop_stop)
qed

lemma pages_inv_body: "pages_inv s \<Longrightarrow> pages_inv (crawl_body get uj s)"
  by (auto simp: pages_inv_def crawl_body_def split: list.splits sum.splits prod.splits)

lemma pages_inv_crawl_loop: "pages_inv (crawl_loop get uj max_pages (crawl_init start_url))"
proof (rule crawl_loop_invariant)
  show "pages_inv (crawl_init start_url)" by (simp add: pages_inv_def crawl_init_def)
qed (rule pages_inv_body)

lemma no_refetch_snoc:
  "no_refetch (xs @ [(v, b)]) \<longleftrightarrow> no_refetch xs \<and> (\<forall>(u, ok) \<in> set xs. ok \<longrightarrow> u \<noteq> v)"
  by (induction xs rule: no_refetch.induct) auto

lemma gets_inv_body: "gets_inv s \<Longrightarrow> gets_inv (crawl_body get uj s)"
  by (auto simp: gets_inv_def crawl_body_def no_refetch_snoc list_all_iff
        split: list.splits sum.splits prod.splits)

text \<open>The crawl of the site with the broken link, and of the site that is down.\<close>

lemma broken_link_site_queue:
  "to_visit (crawl_body broken_link_site absolute_href (crawl_init BASE_URL_WIKI))
     = [''https://wiki.freecad.org/Macros'', ''https://wiki.freecad.org/Macros'']"
  by (simp add: crawl_eval url_eval broken_link_site_def absolute_href_def BASE_URL_WIKI_def)

lemma broken_link_site_gets:
  "gets (crawl_wiki broken_link_site absolute_href BASE_URL_WIKI 2000)
     = [(BASE_URL_WIKI, True), (''https://wiki.freecad.org/Macros'', False),
        (''https://wiki.freecad.org/Macros'', False)]"
  by (simp add: crawl_eval url_eval broken_link_site_def absolute_href_def BASE_URL_WIKI_def)

lemma site_down_wiki:
  "crawl_wiki site_down absolute_href BASE_URL_WIKI 2000
     = \<lparr>visited = {||}, to_visit = [], pages = [],
        out = [Fetching BASE_URL_WIKI, Error_fetching BASE_URL_WIKI ''Connection refused'',
               Crawled 0 BASE_URL_WIKI],
        gets = [(BASE_URL_WIKI, False)]\<rparr>"
  by (simp add: crawl_eval url_eval site_down_def BASE_URL_WIKI_def)

lemma site_down_github:
  "crawl_wiki (\<lambda>n. site_down (k + n)) absolute_href BASE_URL_GITHUB 450
     = \<lparr>visited = {||}, to_visit = [], pages = [],
        out = [Fetching BASE_URL_GITHUB, Error_fetching BASE_URL_GITHUB ''Connection refused'',
               Crawled 0 BASE_URL_GITHUB],
        gets = [(BASE_URL_GITHUB, False)]\<rparr>"
  by (simp add: crawl_eval url_eval site_down_def BASE_URL_GITHUB_def)

text \<open>The loop from a state of a crawl ends where the crawl ends, in a state where the
  loop condition is false; the lines printed, the requests and the page records only
  grow.\<close>

lemma crawl_loop_final: "\<not> crawl_cond max_pages (crawl_loop get uj max_pages s)"
proof (induction get uj max_pages s rule: crawl_loop.induct)
  case (1 get uj max_pages s)
  show ?case
  proof (cases "crawl_cond max_pages s")
    case True
    with 1 show ?thesis by (simp add: crawl_loop_iter)
  next
    case False
    then show ?thesis by (simp add: crawl_loop_stop)
  qed
qed

lemma crawl_loop_reach_eq:
  "crawl_reach get uj max_pages s0 s \<Longrightarrow>
     crawl_loop get uj max_pages s = crawl_loop get uj max_pages s0"
  by (induction rule: crawl_reach.induct) (simp_all add: crawl_loop_iter)

lemma crawl_body_extends:
  "prefix (out s) (out (crawl_body get uj s)) \<and> prefix (gets s) (gets (crawl_body get uj s))
   \<and> prefix (pages s) (pages (crawl_body get uj s))"
  by (simp add: crawl_body_def split: list.splits sum.splits prod.splits)

lemma crawl_reach_extends:
  assumes "crawl_reach get uj max_pages s0 s"
  shows "prefix (out s0) (out s) \<and> prefix (gets s0) (gets s) \<and> prefix (pages s0) (pages s)"
  using assms
proof (induction rule: crawl_reach.induct)
  case start
  show ?case by simp
next
  case (iter s)
  with crawl_body_extends [of s get uj] show ?case
    by (meson prefix_order.order_trans)
qed

lemma pages_inv_reach:
  "crawl_reach get uj max_pages (crawl_init start_url) s \<Longrightarrow> pages_inv s"
proof (erule crawl_reach_invariant)
  show "pages_inv (crawl_init start_url)" by (simp add: pages_inv_def crawl_init_def)
qed (rule pages_inv_body)

lemma visited_iff_got:
  assumes "pages_inv s"
  shows "url |\<in>| visited s \<longleftrightarrow> (url, True) \<in> set (gets s)"
proof -
  from assms have "fset (visited s) = set (map fst (filter snd (gets s)))"
    by (simp add: pages_inv_def)
  then have "url |\<in>| visited s \<longleftrightarrow> url \<in> set (map fst (filter snd (gets s)))"
    by auto
  also have "\<dots> \<longleftrightarrow> (url, True) \<in> set (gets s)"
    by force
  finally show ?thesis .
qed

lemma broken_link_site_pass:
  "crawl_body broken_link_site absolute_href (crawl_init BASE_URL_WIKI)
     = \<lparr>visited = {|BASE_URL_WIKI|},
        to_visit = [''https://wiki.freecad.org/Macros'', ''https://wiki.freecad.org/Macros''],
        pages = [\<lparr>page_url = BASE_URL_WIKI, page_text = clean_text ''Power users hub''\<rparr>],
        out = [Fetching BASE_URL_WIKI],
        gets = [(BASE_URL_WIKI, True)]\<rparr>"
  by (simp add: crawl_eval url_eval broken_link_site_def absolute_href_def BASE_URL_WIKI_def)

lemma broken_link_site_end:
  "crawl_loop broken_link_site absolute_href 2000 (crawl_init BASE_URL_WIKI)
     = \<lparr>visited = {|BASE_URL_WIKI|}, to_visit = [],
        pages = [\<lparr>page_url = BASE_URL_WIKI, page_text = clean_text ''Power users hub''\<rparr>],
        out = [Fetching BASE_URL_WIKI,
               Fetching ''https://wiki.freecad.org/Macros'',
               Error_fetching ''https://wiki.freecad.org/Macros'' ''404 Client Error'',
               Fetching ''https://wiki.freecad.org/Macros'',
               Error_fetching ''https://wiki.freecad.org/Macros'' ''404 Client Error''],
        gets = [(BASE_URL_WIKI, True), (''https://wiki.freecad.org/Macros'', False),
                (''https://wiki.freecad.org/Macros'', False)]\<rparr>"
  by (simp add: crawl_eval url_eval broken_link_site_def absolute_href_def BASE_URL_WIKI_def)

lemma broken_link_site_reach:
  "0 < max_pages \<Longrightarrow>
     crawl_reach broken_link_site absolute_href max_pages (crawl_init BASE_URL_WIKI)
       (crawl_body broken_link_site absolute_href (crawl_init BASE_URL_WIKI))"
  by (rule crawl_reach.iter [OF crawl_reach.start])
     (simp add: crawl_cond_def crawl_init_def fcard_fempty)

section \<open>The claims about the crawl frontier\<close>

text \<open>
  C1, as stated: a URL that is in the pending queue twice is passed to the HTTP GET at
  most once, whether its fetch succeeds or fails. It fails on the site whose root links
  twice to a page that cannot be fetched: after the root the queue holds that page
  twice, and the page is requested twice, since only a fetch that went through marks
  its URL visited.
\<close>

theorem failing_duplicate_fetched_twice:
  "to_visit (crawl_body broken_link_site absolute_href (crawl_init BASE_URL_WIKI))
     = [''https://wiki.freecad.org/Macros'', ''https://wiki.freecad.org/Macros'']
   \<and> map fst (gets (crawl_wiki broken_link_site absolute_href BASE_URL_WIKI 2000))
     = [BASE_URL_WIKI, ''https://wiki.freecad.org/Macros'',
        ''https://wiki.freecad.org/Macros'']"
  by (simp add: broken_link_site_queue broken_link_site_gets)

text \<open>
  C1, amended: a request for a URL goes through when \<open>requests.get\<close>,
  \<open>raise_for_status\<close> and the parse all succeed; the URL is visited from then on. In
  every crawl a URL taken from the queue is passed to the HTTP GET exactly when it is
  not excluded and no earlier request for it went through, and that request is part of
  the requests of the crawl. So after a request for a URL went through the URL is never
  requested again, however often it is in the queue, and a URL whose requests failed is
  requested again each time it is taken from the queue.
\<close>

theorem fetched_until_success:
  assumes "crawl_reach get uj max_pages (crawl_init start_url) s"
    and "crawl_cond max_pages s" and "to_visit s = url # rest"
  shows "(url |\<in>| visited s \<longleftrightarrow> (url, True) \<in> set (gets s))
    \<and> gets (crawl_body get uj s)
        = (if (url, True) \<in> set (gets s) \<or> is_excluded_url url then gets s
           else gets s @ [(url, \<not> isl (get (length (gets s)) url))])
    \<and> visited (crawl_body get uj s)
        = (if (url, True) \<in> set (gets s) \<or> is_excluded_url url
              \<or> isl (get (length (gets s)) url)
           then visited s else finsert url (visited s))
    \<and> prefix (gets (crawl_body get uj s)) (gets (crawl_wiki get uj start_url max_pages))
    \<and> no_refetch (gets (crawl_wiki get uj start_url max_pages))"
proof -
  have v: "url |\<in>| visited s \<longleftrightarrow> (url, True) \<in> set (gets s)"
    using pages_inv_reach [OF assms(1)] by (rule visited_iff_got)
  have g: "gets (crawl_body get uj s)
        = (if (url, True) \<in> set (gets s) \<or> is_excluded_url url then gets s
           else gets s @ [(url, \<not> isl (get (length (gets s)) url))])"
    using assms(3) v by (auto simp: crawl_body_def split: sum.splits prod.splits)
  have w: "visited (crawl_body get uj s)
        = (if (url, True) \<in> set (gets s) \<or> is_excluded_url url
              \<or> isl (get (length (gets s)) url)
           then visited s else finsert url (visited s))"
    using assms(3) v by (auto simp: crawl_body_def split: sum.splits prod.splits)
  have "crawl_reach get uj max_pages (crawl_init start_url) (crawl_body get uj s)"
    using assms(1,2) by (rule crawl_reach.iter)
  then have e: "crawl_loop get uj max_pages (crawl_body get uj s)
      = crawl_loop get uj max_pages (crawl_init start_url)"
    by (rule crawl_loop_reach_eq)
  have "prefix (gets (crawl_body get uj s))
      (gets (crawl_loop get uj max_pages (crawl_body get uj s)))"
    using crawl_reach_extends [OF crawl_reach_loop] by blast
  then have p: "prefix (gets (crawl_body get uj s))
      (gets (crawl_wiki get uj start_url max_pages))"
    by (simp add: e crawl_wiki_def Let_def)
  have "gets_inv (crawl_loop get uj max_pages (crawl_init start_url))"
  proof (rule crawl_loop_invariant)
    show "gets_inv (crawl_init start_url)" by (simp add: gets_inv_def crawl_init_def)
  qed (rule gets_inv_body)
  then have n: "no_refetch (gets (crawl_wiki get uj start_url max_pages))"
    by (simp add: crawl_wiki_def Let_def gets_inv_def)
  from v g w p n show ?thesis by blast
qed

theorem fetched_until_success_witness:
  "crawl_reach broken_link_site absolute_href 2000 (crawl_init BASE_URL_WIKI)
     (crawl_body broken_link_site absolute_href (crawl_init BASE_URL_WIKI))
   \<and> to_visit (crawl_body broken_link_site absolute_href (crawl_init BASE_URL_WIKI))
       = [''https://wiki.freecad.org/Macros'', ''https://wiki.freecad.org/Macros'']
   \<and> gets (crawl_body broken_link_site absolute_href
        (crawl_body broken_link_site absolute_href (crawl_init BASE_URL_WIKI)))
       = [(BASE_URL_WIKI, True), (''https://wiki.freecad.org/Macros'', False)]
   \<and> visited (crawl_body broken_link_site absolute_href
        (crawl_body broken_link_site absolute_href (crawl_init BASE_URL_WIKI)))
       = {|BASE_URL_WIKI|}
   \<and> no_refetch [(BASE_URL_WIKI, True), (''https://wiki.freecad.org/Macros'', False),
                  (''https://wiki.freecad.org/Macros'', False)]"
proof -
  let ?s = "crawl_body broken_link_site absolute_href (crawl_init BASE_URL_WIKI)"
  have r: "crawl_reach broken_link_site absolute_href 2000 (crawl_init BASE_URL_WIKI) ?s"
    by (rule broken_link_site_reach) simp
  have c: "crawl_cond 2000 ?s"
    by (simp add: broken_link_site_pass crawl_cond_def fcard_finsert_if fcard_fempty)
  have q: "to_visit ?s = ''https://wiki.freecad.org/Macros''
      # [''https://wiki.freecad.org/Macros'']"
    by (simp add: broken_link_site_pass)
  have x: "\<not> is_excluded_url ''https://wiki.freecad.org/Macros''"
    by (simp add: url_eval)
  have d: "''https://wiki.freecad.org/Macros'' \<noteq> BASE_URL_WIKI"
    by (simp add: BASE_URL_WIKI_def)
  have e: "gets (crawl_wiki broken_link_site absolute_href BASE_URL_WIKI 2000)
      = [(BASE_URL_WIKI, True), (''https://wiki.freecad.org/Macros'', False),
         (''https://wiki.freecad.org/Macros'', False)]"
    by (simp add: crawl_wiki_def Let_def broken_link_site_end)
  have b: "broken_link_site n ''https://wiki.freecad.org/Macros'' = Inl ''404 Client Error''"
    for n
    by (simp add: broken_link_site_def)
  from fetched_until_success [OF r c q] r q x d show ?thesis
    unfolding e by (simp add: broken_link_site_pass b)
qed

text \<open>
  C4: with a budget \<open>max_pages\<close> (a number of pages, so not negative), at every state
  \<open>s\<close> that the loop of a crawl comes through the number of visited URLs is at most
  \<open>max_pages\<close>. The loop stops in \<open>s\<close> exactly when the pending queue is empty or the
  number of visited URLs is \<open>max_pages\<close>, and makes another pass otherwise. From \<open>s\<close>
  the loop comes to the end of the crawl, and in the state it ends in, which is the
  state \<open>crawl_wiki\<close> returns from, the queue is empty or the number of visited URLs
  is \<open>max_pages\<close>.
\<close>

theorem crawl_budget:
  assumes "0 \<le> max_pages"
    and "crawl_reach get uj max_pages (crawl_init start_url) s"
  shows "int (fcard (visited s)) \<le> max_pages
    \<and> (crawl_loop get uj max_pages s = s
         \<longleftrightarrow> to_visit s = [] \<or> int (fcard (visited s)) = max_pages)
    \<and> crawl_reach get uj max_pages (crawl_init start_url) (crawl_loop get uj max_pages s)
    \<and> (to_visit s \<noteq> [] \<and> int (fcard (visited s)) \<noteq> max_pages
         \<longrightarrow> crawl_loop get uj max_pages s
              = crawl_loop get uj max_pages (crawl_body get uj s))
    \<and> crawl_loop get uj max_pages s = crawl_loop get uj max_pages (crawl_init start_url)
    \<and> (to_visit (crawl_loop get uj max_pages s) = []
         \<or> int (fcard (visited (crawl_loop get uj max_pages s))) = max_pages)
    \<and> int (fcard (visited (crawl_wiki get uj start_url max_pages))) \<le> max_pages
    \<and> (to_visit (crawl_wiki get uj start_url max_pages) = []
         \<or> int (fcard (visited (crawl_wiki get uj start_url max_pages))) = max_pages)"
proof -
  let ?e = "crawl_loop get uj max_pages s"
  have v: "int (fcard (visited s)) \<le> max_pages"
    using assms(2)
    by (rule visited_within_budget) (use assms(1) in \<open>simp add: crawl_init_def fcard_fempty\<close>)
  have r: "crawl_reach get uj max_pages (crawl_init start_url) ?e"
    using crawl_reach_loop assms(2) by (rule crawl_reach_trans)
  have ve: "int (fcard (visited ?e)) \<le> max_pages"
    using r
    by (rule visited_within_budget) (use assms(1) in \<open>simp add: crawl_init_def fcard_fempty\<close>)
  have q: "?e = crawl_loop get uj max_pages (crawl_init start_url)"
    using assms(2) by (rule crawl_loop_reach_eq)
  have f: "to_visit ?e = [] \<or> int (fcard (visited ?e)) = max_pages"
    using crawl_loop_final [of max_pages get uj s] ve by (auto simp: crawl_cond_def)
  have i: "to_visit s \<noteq> [] \<and> int (fcard (visited s)) \<noteq> max_pages
      \<longrightarrow> ?e = crawl_loop get uj max_pages (crawl_body get uj s)"
    using v by (auto simp: crawl_cond_def intro: crawl_loop_iter)
  have w: "visited (crawl_wiki get uj start_url max_pages) = visited ?e"
    "to_visit (crawl_wiki get uj start_url max_pages) = to_visit ?e"
    by (simp_all add: q crawl_wiki_def Let_def)
  have x: "crawl_loop get uj max_pages s = s
      \<longleftrightarrow> to_visit s = [] \<or> int (fcard (visited s)) = max_pages"
    using v crawl_loop_fixed [of get uj max_pages s] by (auto simp: crawl_cond_def)
  from v x r i q f ve show ?thesis
    unfolding w by blast
qed

theorem crawl_budget_witness:
  "crawl_reach broken_link_site absolute_href 1 (crawl_init BASE_URL_WIKI)
     (crawl_body broken_link_site absolute_href (crawl_init BASE_URL_WIKI))
   \<and> int (fcard (visited (crawl_body broken_link_site absolute_href
        (crawl_init BASE_URL_WIKI)))) = 1
   \<and> to_visit (crawl_body broken_link_site absolute_href (crawl_init BASE_URL_WIKI))
       = [''https://wiki.freecad.org/Macros'', ''https://wiki.freecad.org/Macros'']
   \<and> crawl_loop broken_link_site absolute_href 1
        (crawl_body broken_link_site absolute_href (crawl_init BASE_URL_WIKI))
       = crawl_body broken_link_site absolute_href (crawl_init BASE_URL_WIKI)
   \<and> crawl_reach broken_link_site absolute_href 2000 (crawl_init BASE_URL_WIKI)
       (crawl_body broken_link_site absolute_href (crawl_init BASE_URL_WIKI))
   \<and> crawl_loop broken_link_site absolute_href 2000
        (crawl_body broken_link_site absolute_href (crawl_init BASE_URL_WIKI))
       \<noteq> crawl_body broken_link_site absolute_href (crawl_init BASE_URL_WIKI)
   \<and> to_visit (crawl_loop broken_link_site absolute_href 2000
        (crawl_body broken_link_site absolute_href (crawl_init BASE_URL_WIKI))) = []
   \<and> int (fcard (visited (crawl_wiki broken_link_site absolute_href BASE_URL_WIKI 2000)))
       = 1"
proof -
  let ?s = "crawl_body broken_link_site absolute_href (crawl_init BASE_URL_WIKI)"
  have h1: "(0::int) \<le> 1" and h2: "(0::int) \<le> 2000" by simp_all
  have r1: "crawl_reach broken_link_site absolute_href 1 (crawl_init BASE_URL_WIKI) ?s"
    by (rule broken_link_site_reach) simp
  have r2: "crawl_reach broken_link_site absolute_href 2000 (crawl_init BASE_URL_WIKI) ?s"
    by (rule broken_link_site_reach) simp
  have n: "int (fcard (visited ?s)) = 1"
    by (simp add: broken_link_site_pass fcard_finsert_if fcard_fempty)
  have q: "to_visit ?s
      = [''https://wiki.freecad.org/Macros'', ''https://wiki.freecad.org/Macros'']"
    by (simp add: broken_link_site_pass)
  have e: "int (fcard (visited
      (crawl_loop broken_link_site absolute_href 2000 (crawl_init BASE_URL_WIKI)))) = 1"
    by (simp add: broken_link_site_end fcard_finsert_if fcard_fempty)
  from crawl_budget [OF h1 r1] have a: "crawl_loop broken_link_site absolute_href 1 ?s = ?s"
    using n by simp
  from crawl_budget [OF h2 r2]
  have k: "crawl_loop broken_link_site absolute_href 2000 ?s = ?s
      \<longleftrightarrow> to_visit ?s = [] \<or> int (fcard (visited ?s)) = 2000"
    and l: "crawl_loop broken_link_site absolute_href 2000 ?s
      = crawl_loop broken_link_site absolute_href 2000 (crawl_init BASE_URL_WIKI)"
    and m: "to_visit (crawl_loop broken_link_site absolute_href 2000 ?s) = []
      \<or> int (fcard (visited (crawl_loop broken_link_site absolute_href 2000 ?s))) = 2000"
    by blast+
  have b: "crawl_loop broken_link_site absolute_href 2000 ?s \<noteq> ?s"
    using k unfolding n q by simp
  have c: "to_visit (crawl_loop broken_link_site absolute_href 2000 ?s) = []"
    using m unfolding l e by simp
  have d: "int (fcard (visited (crawl_wiki broken_link_site absolute_href BASE_URL_WIKI 2000)))
      = 1"
    using e by (simp add: crawl_wiki_def Let_def)
  from r1 n q a r2 b c d show ?thesis by blast
qed

text \<open>
  C5: when the fetch or the parse of the page at the head of the queue fails during a
  crawl, the pass only takes the URL from the queue, prints the error with the URL and
  logs the failed request: no page record and no visited URL is added. The crawl is not
  aborted: its loop goes on from there, with a pass on the next queue entry if there is
  one and the budget allows, until the queue is empty or the budget is reached; the
  error line stays in what the crawl prints, and the page records the crawl returns are
  those of the requests that went through, so the failed request gives none.
\<close>

theorem fetch_failure_skipped:
  assumes "crawl_reach get uj max_pages (crawl_init start_url) s"
    and "crawl_cond max_pages s" and "to_visit s = url # rest"
    and "url |\<notin>| visited s" and "\<not> is_excluded_url url"
    and "get (length (gets s)) url = Inl e"
  shows "crawl_body get uj s
        = s\<lparr>to_visit := rest,
            out := out s @ [Fetching url, Error_fetching url e],
            gets := gets s @ [(url, False)]\<rparr>
    \<and> crawl_loop get uj max_pages (crawl_init start_url)
        = crawl_loop get uj max_pages (crawl_body get uj s)
    \<and> crawl_reach get uj max_pages (crawl_body get uj s)
        (crawl_loop get uj max_pages (crawl_init start_url))
    \<and> (rest \<noteq> [] \<longrightarrow>
         crawl_reach get uj max_pages (crawl_body get uj (crawl_body get uj s))
           (crawl_loop get uj max_pages (crawl_init start_url)))
    \<and> \<not> crawl_cond max_pages (crawl_loop get uj max_pages (crawl_init start_url))
    \<and> prefix (out s @ [Fetching url, Error_fetching url e])
        (out (crawl_wiki get uj start_url max_pages))
    \<and> prefix (gets s @ [(url, False)]) (gets (crawl_wiki get uj start_url max_pages))
    \<and> prefix (pages s) (pages (crawl_wiki get uj start_url max_pages))
    \<and> map page_url (pages (crawl_wiki get uj start_url max_pages))
        = map fst (filter snd (gets (crawl_wiki get uj start_url max_pages)))"
proof -
  let ?b = "crawl_body get uj s"
  let ?end = "crawl_loop get uj max_pages (crawl_init start_url)"
  have b: "?b = s\<lparr>to_visit := rest, out := out s @ [Fetching url, Error_fetching url e],
        gets := gets s @ [(url, False)]\<rparr>"
    using assms(3-6) by (simp add: crawl_body_def)
  have rb: "crawl_reach get uj max_pages (crawl_init start_url) ?b"
    using assms(1,2) by (rule crawl_reach.iter)
  then have eq: "?end = crawl_loop get uj max_pages ?b"
    by (rule crawl_loop_reach_eq [symmetric])
  have re: "crawl_reach get uj max_pages ?b ?end"
    unfolding eq by (rule crawl_reach_loop)
  have nx: "crawl_reach get uj max_pages (crawl_body get uj ?b) ?end" if "rest \<noteq> []"
  proof -
    have c: "crawl_cond max_pages ?b"
      using assms(2) that by (simp add: b crawl_cond_def)
    then have "crawl_loop get uj max_pages ?b = crawl_loop get uj max_pages (crawl_body get uj ?b)"
      by (rule crawl_loop_iter)
    then show ?thesis
      unfolding eq by (simp add: crawl_reach_loop)
  qed
  have fin: "\<not> crawl_cond max_pages ?end"
    by (rule crawl_loop_final)
  from crawl_reach_extends [OF re]
  have ext: "prefix (out ?b) (out ?end)" "prefix (gets ?b) (gets ?end)"
    "prefix (pages ?b) (pages ?end)"
    by blast+
  have po: "prefix (out s @ [Fetching url, Error_fetching url e])
      (out (crawl_wiki get uj start_url max_pages))"
    using ext(1) by (simp add: b crawl_wiki_def Let_def prefix_prefix)
  have pg: "prefix (gets s @ [(url, False)]) (gets (crawl_wiki get uj start_url max_pages))"
    using ext(2) by (simp add: b crawl_wiki_def Let_def)
  have pp: "prefix (pages s) (pages (crawl_wiki get uj start_url max_pages))"
    using ext(3) by (simp add: b crawl_wiki_def Let_def)
  have m: "map page_url (pages (crawl_wiki get uj start_url max_pages))
        = map fst (filter snd (gets (crawl_wiki get uj start_url max_pages)))"
    using pages_inv_crawl_loop [of get uj max_pages start_url]
    by (simp add: crawl_wiki_def Let_def pages_inv_def)
  from b eq re nx fin po pg pp m show ?thesis by blast
qed

theorem fetch_failure_skipped_witness:
  "crawl_reach broken_link_site absolute_href 2000 (crawl_init BASE_URL_WIKI)
     (crawl_body broken_link_site absolute_href (crawl_init BASE_URL_WIKI))
   \<and> crawl_cond 2000 (crawl_body broken_link_site absolute_href (crawl_init BASE_URL_WIKI))
   \<and> to_visit (crawl_body broken_link_site absolute_href (crawl_init BASE_URL_WIKI))
       = ''https://wiki.freecad.org/Macros'' # [''https://wiki.freecad.org/Macros'']
   \<and> \<not> is_excluded_url ''https://wiki.freecad.org/Macros''
   \<and> broken_link_site 1 ''https://wiki.freecad.org/Macros'' = Inl ''404 Client Error''
   \<and> crawl_body broken_link_site absolute_href
        (crawl_body broken_link_site absolute_href (crawl_init BASE_URL_WIKI))
       = \<lparr>visited = {|BASE_URL_WIKI|},
          to_visit = [''https://wiki.freecad.org/Macros''],
          pages = [\<lparr>page_url = BASE_URL_WIKI, page_text = clean_text ''Power users hub''\<rparr>],
          out = [Fetching BASE_URL_WIKI,
                 Fetching ''https://wiki.freecad.org/Macros'',
                 Error_fetching ''https://wiki.freecad.org/Macros'' ''404 Client Error''],
          gets = [(BASE_URL_WIKI, True), (''https://wiki.freecad.org/Macros'', False)]\<rparr>
   \<and> prefix [Fetching BASE_URL_WIKI,
              Fetching ''https://wiki.freecad.org/Macros'',
              Error_fetching ''https://wiki.freecad.org/Macros'' ''404 Client Error'']
        (out (crawl_wiki broken_link_site absolute_href BASE_URL_WIKI 2000))
   \<and> map page_url (pages (crawl_wiki broken_link_site absolute_href BASE_URL_WIKI 2000))
       = [BASE_URL_WIKI]
   \<and> crawl_reach broken_link_site absolute_href 2000
        (crawl_body broken_link_site absolute_href
          (crawl_body broken_link_site absolute_href
            (crawl_body broken_link_site absolute_href (crawl_init BASE_URL_WIKI))))
        (crawl_loop broken_link_site absolute_href 2000 (crawl_init BASE_URL_WIKI))
   \<and> out (crawl_wiki broken_link_site absolute_href BASE_URL_WIKI 2000)
       = [Fetching BASE_URL_WIKI,
          Fetching ''https://wiki.freecad.org/Macros'',
          Error_fetching ''https://wiki.freecad.org/Macros'' ''404 Client Error'',
          Fetching ''https://wiki.freecad.org/Macros'',
          Error_fetching ''https://wiki.freecad.org/Macros'' ''404 Client Error'',
          Crawled 1 BASE_URL_WIKI]"
proof -
  let ?u = "''https://wiki.freecad.org/Macros''"
  let ?s = "crawl_body broken_link_site absolute_href (crawl_init BASE_URL_WIKI)"
  have r: "crawl_reach broken_link_site absolute_href 2000 (crawl_init BASE_URL_WIKI) ?s"
    by (rule broken_link_site_reach) simp
  have c: "crawl_cond 2000 ?s"
    by (simp add: broken_link_site_pass crawl_cond_def fcard_finsert_if fcard_fempty)
  have q: "to_visit ?s = ?u # [?u]" by (simp add: broken_link_site_pass)
  have d: "?u \<noteq> BASE_URL_WIKI" by (simp add: BASE_URL_WIKI_def)
  have v: "?u |\<notin>| visited ?s" by (simp add: broken_link_site_pass d)
  have x: "\<not> is_excluded_url ?u" by (simp add: url_eval)
  have g: "broken_link_site (length (gets ?s)) ?u = Inl ''404 Client Error''"
    by (simp add: broken_link_site_def)
  have g1: "broken_link_site 1 ?u = Inl ''404 Client Error''"
    by (simp add: broken_link_site_def)
  have e: "gets (crawl_wiki broken_link_site absolute_href BASE_URL_WIKI 2000)
      = [(BASE_URL_WIKI, True), (?u, False), (?u, False)]"
    by (simp add: crawl_wiki_def Let_def broken_link_site_end)
  have o: "out (crawl_wiki broken_link_site absolute_href BASE_URL_WIKI 2000)
      = [Fetching BASE_URL_WIKI, Fetching ?u, Error_fetching ?u ''404 Client Error'',
         Fetching ?u, Error_fetching ?u ''404 Client Error'', Crawled 1 BASE_URL_WIKI]"
    by (simp add: crawl_wiki_def Let_def broken_link_site_end)
  from fetch_failure_skipped
      [where get = broken_link_site and uj = absolute_href, OF r c q v x g]
  have n: "crawl_reach broken_link_site absolute_href 2000
        (crawl_body broken_link_site absolute_href (crawl_body broken_link_site absolute_href ?s))
        (crawl_loop broken_link_site absolute_href 2000 (crawl_init BASE_URL_WIKI))"
    by blast
  from fetch_failure_skipped
      [where get = broken_link_site and uj = absolute_href, OF r c q v x g]
  have "crawl_body broken_link_site absolute_href ?s
        = ?s\<lparr>to_visit := [?u],
            out := out ?s @ [Fetching ?u, Error_fetching ?u ''404 Client Error''],
            gets := gets ?s @ [(?u, False)]\<rparr>"
    and "prefix (out ?s @ [Fetching ?u, Error_fetching ?u ''404 Client Error''])
        (out (crawl_wiki broken_link_site absolute_href BASE_URL_WIKI 2000))"
    and "map page_url (pages (crawl_wiki broken_link_site absolute_href BASE_URL_WIKI 2000))
        = map fst (filter snd (gets (crawl_wiki broken_link_site absolute_href
            BASE_URL_WIKI 2000)))"
    by blast+
  then have "crawl_body broken_link_site absolute_href ?s
       = \<lparr>visited = {|BASE_URL_WIKI|},
          to_visit = [?u],
          pages = [\<lparr>page_url = BASE_URL_WIKI, page_text = clean_text ''Power users hub''\<rparr>],
          out = [Fetching BASE_URL_WIKI, Fetching ?u,
                 Error_fetching ?u ''404 Client Error''],
          gets = [(BASE_URL_WIKI, True), (?u, False)]\<rparr>"
    and "prefix [Fetching BASE_URL_WIKI, Fetching ?u, Error_fetching ?u ''404 Client Error'']
        (out (crawl_wiki broken_link_site absolute_href BASE_URL_WIKI 2000))"
    and "map page_url (pages (crawl_wiki broken_link_site absolute_href BASE_URL_WIKI 2000))
       = [BASE_URL_WIKI]"
    unfolding e by (simp_all add: broken_link_site_pass)
  with r c q x g1 n o show ?thesis by blast
qed

text \<open>
  C9: the URLs of the page records that a crawl returns are pairwise distinct.
\<close>

theorem page_urls_distinct:
  "distinct (map page_url (pages (crawl_wiki get uj start_url max_pages)))"
  using pages_inv_crawl_loop [of get uj max_pages start_url]
  by (simp add: crawl_wiki_def Let_def pages_inv_def)

text \<open>
  C10: when the start URL itself is excluded by the filter, the crawl makes no request
  and returns no page record.
\<close>

theorem excluded_start_no_fetch:
  assumes "is_excluded_url start_url"
  shows "pages (crawl_wiki get uj start_url max_pages) = []
    \<and> gets (crawl_wiki get uj start_url max_pages) = []"
proof -
  let ?s = "crawl_init start_url"
  have "pages (crawl_loop get uj max_pages ?s) = [] \<and> gets (crawl_loop get uj max_pages ?s) = []"
  proof (cases "crawl_cond max_pages ?s")
    case False
    then show ?thesis by (simp add: crawl_loop_stop crawl_init_def)
  next
    case True
    have b: "crawl_body get uj ?s = ?s\<lparr>to_visit := []\<rparr>"
      using assms by (simp add: crawl_body_def crawl_init_def)
    have "\<not> crawl_cond max_pages (?s\<lparr>to_visit := []\<rparr>)"
      by (simp add: crawl_cond_def)
    with True b show ?thesis
      by (simp add: crawl_loop_iter crawl_loop_stop crawl_init_def)
  qed
  then show ?thesis by (simp add: crawl_wiki_def Let_def)
qed

theorem excluded_start_no_fetch_witness:
  "is_excluded_url ''https://wiki.freecad.org/Power_users_hub/de''
   \<and> pages (crawl_wiki broken_link_site absolute_href
        ''https://wiki.freecad.org/Power_users_hub/de'' 2000) = []
   \<and> gets (crawl_wiki broken_link_site absolute_href
        ''https://wiki.freecad.org/Power_users_hub/de'' 2000) = []"
proof -
  have h: "is_excluded_url ''https://wiki.freecad.org/Power_users_hub/de''"
    by (simp add: url_eval)
  from excluded_start_no_fetch [OF h, of broken_link_site absolute_href 2000] h
  show ?thesis by simp
qed

section \<open>The claim about the pipeline\<close>

text \<open>
  C6: when the two crawls return no page record at all, \<open>build_vectorstore\<close> prints
  the abort message after the lines of the crawls and returns: it calls neither the
  splitter nor the construction of the index, creates no directory and saves nothing.
\<close>

theorem empty_corpus_aborts:
  assumes "pages (crawl_wiki get uj BASE_URL_WIKI 2000) = []"
    and "pages (crawl_wiki (\<lambda>n. get (length (gets (crawl_wiki get uj BASE_URL_WIKI 2000)) + n))
                  uj BASE_URL_GITHUB 450) = []"
  shows "calls (build_vectorstore get uj splitter from_documents makedirs save_local) = []
    \<and> raised (build_vectorstore get uj splitter from_documents makedirs save_local) = None
    \<and> printed (build_vectorstore get uj splitter from_documents makedirs save_local)
        = out (crawl_wiki get uj BASE_URL_WIKI 2000)
          @ out (crawl_wiki (\<lambda>n. get (length (gets (crawl_wiki get uj BASE_URL_WIKI 2000)) + n))
                   uj BASE_URL_GITHUB 450)
          @ [No_pages_crawled]"
  using assms by (simp add: build_vectorstore_def Let_def)

theorem empty_corpus_aborts_witness:
  "pages (crawl_wiki site_down absolute_href BASE_URL_WIKI 2000) = []
   \<and> calls (build_vectorstore site_down absolute_href page_splitter list_index None save_ok) = []
   \<and> raised (build_vectorstore site_down absolute_href page_splitter list_index None save_ok)
       = None
   \<and> printed (build_vectorstore site_down absolute_href page_splitter list_index None save_ok)
       = [Fetching BASE_URL_WIKI, Error_fetching BASE_URL_WIKI ''Connection refused'',
          Crawled 0 BASE_URL_WIKI,
          Fetching BASE_URL_GITHUB, Error_fetching BASE_URL_GITHUB ''Connection refused'',
          Crawled 0 BASE_URL_GITHUB,
          No_pages_crawled]"
proof -
  have a: "pages (crawl_wiki site_down absolute_href BASE_URL_WIKI 2000) = []"
    by (simp add: site_down_wiki)
  have b: "pages (crawl_wiki
      (\<lambda>n. site_down (length (gets (crawl_wiki site_down absolute_href BASE_URL_WIKI 2000)) + n))
      absolute_href BASE_URL_GITHUB 450) = []"
    by (simp only: site_down_github) simp
  from empty_corpus_aborts [OF a b, of page_splitter list_index None save_ok] a
  show ?thesis by (simp only: site_down_github) (simp add: site_down_wiki)
qed

section \<open>Facts about the text extraction\<close>










section \<open>The claim about the extracted text\<close>



section \<open>The claim about the URL filter\<close>

lemma lower_contains: "contains s sub \<Longrightarrow> contains (lower s) (lower sub)"
  by (simp add: contains_sublist lower_def map_mono_sublist)

lemma lower_language: "lang \<in> set LANG_IDENTIFIERS \<Longrightarrow> lower lang = lang"
  by (auto simp: url_eval)

text \<open>On the wiki the language markers exclude: a URL that begins with the wiki's
  prefix of the whitelist and contains a language marker is excluded.\<close>

lemma wiki_language_url_excluded:
  assumes "prefix ''https://wiki.freecad.org'' url"
    and "lang \<in> set LANG_IDENTIFIERS" and "contains url lang"
  shows "is_excluded_url url"
proof -
  have "sublist ''wiki.freecad.org'' ''https://wiki.freecad.org''"
    unfolding contains_sublist [symmetric] by simp
  moreover have "sublist ''https://wiki.freecad.org'' url"
    using assms(1) by (rule prefix_imp_sublist)
  ultimately have "contains url ''wiki.freecad.org''"
    unfolding contains_sublist by (rule sublist_order.order_trans)
  from lower_contains [OF this] have w: "contains (lower url) ''wiki.freecad.org''"
    by (simp add: lower_def lower_char_def)
  from lower_contains [OF assms(3)] lower_language [OF assms(2)]
  have "contains (lower url) lang" by simp
  with assms(2) have "list_ex (\<lambda>lang. contains (lower url) lang) LANG_IDENTIFIERS"
    unfolding list_ex_iff by blast
  with w show ?thesis by (simp add: is_excluded_url_def Let_def)
qed

text \<open>
  C3: the claim has the language markers apply to URLs of the wiki only, never to a URL
  of the code-hosting domain. The code looks for \<open>wiki.freecad.org\<close> anywhere in the
  URL, so a URL of the code-hosting domain that mentions the wiki and contains a
  language marker is excluded, although it contains none of the asset or edit-action
  markers.
\<close>

theorem github_url_excluded_by_language:
  "prefix ''https://github.com/shaise''
     ''https://github.com/shaise/FreeCAD_FastenersWB/issues?q=wiki.freecad.org/de''
   \<and> contains ''https://github.com/shaise/FreeCAD_FastenersWB/issues?q=wiki.freecad.org/de''
       ''/de''
   \<and> \<not> contains
       (lower ''https://github.com/shaise/FreeCAD_FastenersWB/issues?q=wiki.freecad.org/de'')
       ''.jpg''
   \<and> \<not> contains
       (lower ''https://github.com/shaise/FreeCAD_FastenersWB/issues?q=wiki.freecad.org/de'')
       ''.png''
   \<and> \<not> contains
       (lower ''https://github.com/shaise/FreeCAD_FastenersWB/issues?q=wiki.freecad.org/de'')
       ''edit&section''
   \<and> is_excluded_url
       ''https://github.com/shaise/FreeCAD_FastenersWB/issues?q=wiki.freecad.org/de''"
  by (simp add: url_eval)

section \<open>Facts about the chunker of the specification\<close>

lemma chunk_text_short:
  "length t < chunk_size \<Longrightarrow> chunk_text chunk_size overlap t = Some [t]"
  by (subst chunk_text.simps) simp

lemma chunk_text_long:
  "chunk_size \<le> length t \<Longrightarrow>
     chunk_text chunk_size overlap t =
       Option.bind (chunk_text chunk_size overlap (drop (chunk_size - overlap) t))
         (\<lambda>cs. Some (take chunk_size t # cs))"
  by (subst chunk_text.simps) simp

text \<open>The chunks are the windows of the text, and the walk comes to an end.\<close>

lemma chunk_text_windows:
  assumes "overlap < chunk_size"
  shows "\<exists>cs. chunk_text chunk_size overlap t = Some cs \<and> cs \<noteq> []
    \<and> (\<forall>i < length cs. cs ! i = take chunk_size (drop (i * (chunk_size - overlap)) t))
    \<and> (\<forall>i. Suc i < length cs \<longrightarrow> length (cs ! i) = chunk_size)
    \<and> reassemble overlap cs = t"
proof (induction "length t" arbitrary: t rule: less_induct)
  case less
  let ?k = "chunk_size - overlap"
  show ?case
  proof (cases "length t < chunk_size")
    case True
    then show ?thesis
      by (simp add: chunk_text_short reassemble_def)
  next
    case False
    then have len: "chunk_size \<le> length t" by simp
    with assms have "length (drop ?k t) < length t" by simp
    from less [OF this] obtain cs where
      cs: "chunk_text chunk_size overlap (drop ?k t) = Some cs" "cs \<noteq> []"
      and win: "\<forall>i < length cs. cs ! i = take chunk_size (drop (i * ?k) (drop ?k t))"
      and full: "\<forall>i. Suc i < length cs \<longrightarrow> length (cs ! i) = chunk_size"
      and re: "reassemble overlap cs = drop ?k t"
      by blast
    from cs(2) obtain c rest where c: "cs = c # rest" by (cases cs) auto
    have c0: "c = take chunk_size (drop ?k t)"
      using win c by force
    have lc: "overlap \<le> length c"
      using len assms by (simp add: c0)
    have "c @ concat (map (drop overlap) rest) = drop ?k t"
      using re c by (simp add: reassemble_def)
    then have "drop overlap (c @ concat (map (drop overlap) rest)) = drop overlap (drop ?k t)"
      by simp
    with lc assms have tail: "concat (map (drop overlap) cs) = drop chunk_size t"
      by (simp add: c)
    have w: "\<forall>i < length (take chunk_size t # cs).
        (take chunk_size t # cs) ! i = take chunk_size (drop (i * ?k) t)"
    proof (intro allI impI)
      fix i assume "i < length (take chunk_size t # cs)"
      then show "(take chunk_size t # cs) ! i = take chunk_size (drop (i * ?k) t)"
        using win by (cases i) (simp_all add: add.commute)
    qed
    have f: "\<forall>i. Suc i < length (take chunk_size t # cs)
        \<longrightarrow> length ((take chunk_size t # cs) ! i) = chunk_size"
    proof (intro allI impI)
      fix i assume "Suc i < length (take chunk_size t # cs)"
      then show "length ((take chunk_size t # cs) ! i) = chunk_size"
        using full len by (cases i) simp_all
    qed
    have "reassemble overlap (take chunk_size t # cs) = t"
      by (simp add: reassemble_def tail)
    with w f cs(1) len show ?thesis
      by (simp add: chunk_text_long)
  qed
qed

lemma chunk_text_2400:
  assumes "length t = 2400"
  shows "chunk_text 1000 150 t = Some [take 1000 t, take 1000 (drop 850 t), drop 1700 t]"
proof -
  have a: "chunk_text 1000 150 (drop 1700 t) = Some [drop 1700 t]"
    using assms by (simp add: chunk_text_short)
  have b: "chunk_text 1000 150 (drop 850 t) = Some [take 1000 (drop 850 t), drop 1700 t]"
    using assms a by (simp add: chunk_text_long)
  show ?thesis
    using assms b by (simp add: chunk_text_long)
qed

section \<open>The claims about the chunker\<close>

text \<open>
  C2: for every text \<open>t\<close>, chunk size and overlap with the overlap below the chunk size,
  the chunker returns chunks; chunk \<open>i\<close> is the window of \<open>chunk_size\<close> characters that
  begins at \<open>i * (chunk_size - overlap)\<close>, full for every chunk but the last; and the
  first chunk followed by the others without their first \<open>overlap\<close> characters is \<open>t\<close>.
\<close>

theorem chunks_reassemble:
  assumes "overlap < chunk_size"
  shows "\<exists>cs. chunk_text chunk_size overlap t = Some cs
    \<and> (\<forall>i < length cs. cs ! i = take chunk_size (drop (i * (chunk_size - overlap)) t))
    \<and> (\<forall>i. Suc i < length cs \<longrightarrow> length (cs ! i) = chunk_size)
    \<and> reassemble overlap cs = t"
  using chunk_text_windows [OF assms, of t] by blast

theorem chunks_reassemble_witness:
  "(2::nat) < 5
   \<and> chunk_text 5 2 ''abcdefghijkl'' = Some [''abcde'', ''defgh'', ''ghijk'', ''jkl'']
   \<and> reassemble 2 [''abcde'', ''defgh'', ''ghijk'', ''jkl''] = ''abcdefghijkl''"
proof -
  have h: "(2::nat) < 5" by simp
  have e: "chunk_text 5 2 ''abcdefghijkl'' = Some [''abcde'', ''defgh'', ''ghijk'', ''jkl'']"
    by (simp add: chunk_text_long chunk_text_short)
  from chunks_reassemble [OF h, of "''abcdefghijkl''"] h e show ?thesis
    by simp
qed

text \<open>
  C8, as stated: a text of 2400 characters gives, with chunk size 1000 and overlap 150,
  chunks of the lengths 1000, 1000 and 550. The third window begins at 1700 and runs to
  the end of the text, so its length is 700; with 550 the chunks would not cover
  the text.
\<close>

theorem chunk_lengths_2400_not_550:
  "map_option (map length) (chunk_text 1000 150 (replicate 2400 (CHR ''a'')))
     = Some [1000, 1000, 700]
   \<and> map_option (map length) (chunk_text 1000 150 (replicate 2400 (CHR ''a'')))
     \<noteq> Some [1000, 1000, 550]"
  by (simp add: chunk_text_2400)

text \<open>
  C8, amended: a text of 2400 characters gives, with chunk size 1000 and overlap 150,
  three chunks of the lengths 1000, 1000 and 700; the last 150 characters of the first
  and of the second chunk are the first 150 characters of the next chunk.
\<close>

theorem chunk_lengths_2400:
  assumes "length t = 2400"
  shows "\<exists>c1 c2 c3. chunk_text 1000 150 t = Some [c1, c2, c3]
    \<and> length c1 = 1000 \<and> length c2 = 1000 \<and> length c3 = 700
    \<and> drop 850 c1 = take 150 c2 \<and> drop 850 c2 = take 150 c3"
proof (intro exI conjI)
  show "chunk_text 1000 150 t = Some [take 1000 t, take 1000 (drop 850 t), drop 1700 t]"
    using assms by (rule chunk_text_2400)
  show "drop 850 (take 1000 t) = take 150 (take 1000 (drop 850 t))"
    by (simp add: drop_take)
  show "drop 850 (take 1000 (drop 850 t)) = take 150 (drop 1700 t)"
    by (simp add: drop_take)
qed (use assms in simp_all)

theorem chunk_lengths_2400_witness:
  "length (replicate 2400 (CHR ''b'')) = 2400
   \<and> (\<exists>c1 c2 c3. chunk_text 1000 150 (replicate 2400 (CHR ''b'')) = Some [c1, c2, c3]
        \<and> length c1 = 1000 \<and> length c2 = 1000 \<and> length c3 = 700)"
proof -
  have h: "length (replicate 2400 (CHR ''b'')) = 2400" by simp
  from chunk_lengths_2400 [OF h] h show ?thesis by blast
qed

end
